theory Spec2Isabelle
  imports Main "HOL-Library.Multiset"
begin

section \<open>Data.Native.Array: helper functions over JavaScript arrays\<close>

text \<open>
  The module \<^verbatim>\<open>src/index.js\<close> exports fourteen curried functions over arrays. An array
  of the source's type \<^verbatim>\<open>Array a\<close> is a list of values of type \<open>'a\<close>; an \<^verbatim>\<open>Int\<close> is a
  JavaScript number that holds an integer, written as that \<open>int\<close>, and adding or
  subtracting \<open>1\<close> rounds as the host's numbers do (\<open>js_number\<close> below); the length of
  an array is a \<open>nat\<close>. A list can be of any length: the host's bound on the length of
  an array and the exhaustion of memory are outside the model. The elements are values
  of the element type: \<^verbatim>\<open>undefined\<close> and holes are not among them, as the module's
  header asks (\<^verbatim>\<open>They may not return nil or undefined\<close>). The source reads \<^verbatim>\<open>a[i]\<close>
  only under a guard that puts \<open>i\<close> below the length, so \<open>a ! i\<close> is never used out of
  range.
\<close>

subsection \<open>The Maybe collaborator\<close>

text \<open>
  \<^verbatim>\<open>Data.Native.Maybe\<close> is another package; the module uses its two constructors
  \<^verbatim>\<open>Maybe.Nothing\<close> and \<^verbatim>\<open>Maybe.Just(v)\<close> and the test \<^verbatim>\<open>isJust()\<close>.
\<close>

datatype 'a Maybe = Nothing | Just 'a

fun isJust :: "'a Maybe \<Rightarrow> bool" where
  "isJust Nothing = False"
| "isJust (Just v) = True"

subsection \<open>length\<close>

text \<open>\<^verbatim>\<open>const length = a => a.length;\<close>\<close>

definition length_array :: "'a list \<Rightarrow> nat" where
  "length_array a = length a"

subsection \<open>findMap\<close>

text \<open>
  \<^verbatim>\<open>
  const findMap = a => f => {
      for (let lp = 0; lp < a.length; lp += 1) {
          const fResult = f(a[lp]);
          if (fResult.isJust()) { return fResult; }
      }
      return Maybe.Nothing;
  };
  \<close>
  The loop is the recursion on \<open>lp\<close>. To speak about which elements \<open>f\<close> is evaluated
  on, the loop carries a log: every call \<^verbatim>\<open>f(a[lp])\<close> appends its argument to \<open>calls\<close>.
\<close>

function findMap_loop ::
  "'a list \<Rightarrow> ('a \<Rightarrow> 'b Maybe) \<Rightarrow> nat \<Rightarrow> 'a list \<Rightarrow> 'b Maybe \<times> 'a list" where
  "findMap_loop a f lp calls =
     (if lp < length a then
        (let fResult = f (a ! lp); calls' = calls @ [a ! lp] in
         if isJust fResult then (fResult, calls')
         else findMap_loop a f (lp + 1) calls')
      else (Nothing, calls))"
  by pat_completeness auto
termination
  by (relation "measure (\<lambda>(a, f, lp, calls). length a - lp)") auto

declare findMap_loop.simps [simp del]

definition findMap :: "'a list \<Rightarrow> ('a \<Rightarrow> 'b Maybe) \<Rightarrow> 'b Maybe" where
  "findMap a f = fst (findMap_loop a f 0 [])"

definition findMap_evaluated :: "'a list \<Rightarrow> ('a \<Rightarrow> 'b Maybe) \<Rightarrow> 'a list" where
  "findMap_evaluated a f = snd (findMap_loop a f 0 [])"

subsection \<open>at\<close>

text \<open>
  \<^verbatim>\<open>
  const at = a => index =>
      (index < 0 || index >= a.length) ? Maybe.Nothing : Maybe.Just(a[index]);
  \<close>
\<close>

definition at :: "'a list \<Rightarrow> int \<Rightarrow> 'a Maybe" where
  "at a index =
     (if index < 0 \<or> index \<ge> int (length a) then Nothing else Just (a ! nat index))"

subsection \<open>Numbers\<close>

text \<open>
  A JavaScript number is an IEEE 754 binary64 value: of an integer it keeps the 53
  leading binary digits. \<open>to_double n\<close> is the number nearest to the natural number
  \<open>n\<close>, with a tie going to the neighbour whose last kept digit is even (the host's
  rounding of every arithmetic result), and \<open>js_number\<close> is the same for an integer
  of either sign. The sums and differences formed by the source stay far below the
  largest finite number, so no result overflows.
\<close>

fun bit_length :: "nat \<Rightarrow> nat" where
  "bit_length n = (if n = 0 then 0 else Suc (bit_length (n div 2)))"

declare bit_length.simps [simp del]

definition round_nearest_even :: "nat \<Rightarrow> nat \<Rightarrow> nat" where
  "round_nearest_even e n =
     (let unit = 2 ^ e; q = n div unit; r = n mod unit
      in if 2 * r > unit \<or> (2 * r = unit \<and> odd q) then (q + 1) * unit else q * unit)"

definition to_double :: "nat \<Rightarrow> nat" where
  "to_double n = round_nearest_even (bit_length n - 53) n"

definition js_number :: "int \<Rightarrow> int" where
  "js_number i = (if i < 0 then - int (to_double (nat (- i))) else int (to_double (nat i)))"

subsection \<open>range\<close>

text \<open>
  \<^verbatim>\<open>
  const range = lower => upper => {
      if (lower < upper) {
          let result = [];
          for (let lp = lower; lp < upper; lp += 1) { result.push(lp); }
          return result;
      } else {
          let result = [];
          for (let lp = lower; lp > upper; lp -= 1) { result.push(lp); }
          return result;
      }
  };
  \<close>
\<close>

text \<open>
  \<^verbatim>\<open>lp += 1\<close> and \<^verbatim>\<open>lp -= 1\<close> are number arithmetic: the new \<open>lp\<close> is
  \<open>js_number (lp + 1)\<close>, \<open>js_number (lp - 1)\<close>. A loop whose counter no longer moves
  does not end, so each loop is a partial function: \<open>None\<close> stands for a call that
  returns nothing. The arguments \<open>lower\<close> and \<open>upper\<close> are numbers themselves.
\<close>

partial_function (option) range_up :: "int \<Rightarrow> int \<Rightarrow> int list \<Rightarrow> int list option" where
  "range_up lp upper result =
     (if lp < upper then range_up (js_number (lp + 1)) upper (result @ [lp]) else Some result)"

partial_function (option) range_down :: "int \<Rightarrow> int \<Rightarrow> int list \<Rightarrow> int list option" where
  "range_down lp upper result =
     (if lp > upper then range_down (js_number (lp - 1)) upper (result @ [lp]) else Some result)"

definition range_array :: "int \<Rightarrow> int \<Rightarrow> int list option" where
  "range_array lower upper =
     (if lower < upper then range_up lower upper [] else range_down lower upper [])"

subsection \<open>append, prepend, concat, map, filter\<close>

text \<open>
  \<^verbatim>\<open>
  const append = a => item => [...a, item];
  const prepend = item => a => [item, ...a];
  const concat = a1 => a2 => a1.concat(a2);
  const map = f => a => a.map(f);
  const filter = predicate => a => a.filter(predicate);
  \<close>
  A spread \<^verbatim>\<open>...a\<close> puts the elements of \<open>a\<close> in order into the new array literal.
  \<^verbatim>\<open>Array.prototype.concat\<close> (ECMA-262, 23.1.3.1) copies the elements of the receiver,
  then those of its array argument, into a new array. \<^verbatim>\<open>Array.prototype.map\<close> and
  \<^verbatim>\<open>Array.prototype.filter\<close> visit the indices in ascending order.
\<close>

definition append_array :: "'a list \<Rightarrow> 'a \<Rightarrow> 'a list" where
  "append_array a item = a @ [item]"

definition prepend :: "'a \<Rightarrow> 'a list \<Rightarrow> 'a list" where
  "prepend item a = item # a"

definition concat_array :: "'a list \<Rightarrow> 'a list \<Rightarrow> 'a list" where
  "concat_array a1 a2 = a1 @ a2"

definition map_array :: "('a \<Rightarrow> 'b) \<Rightarrow> 'a list \<Rightarrow> 'b list" where
  "map_array f a = map f a"

definition filter_array :: "('a \<Rightarrow> bool) \<Rightarrow> 'a list \<Rightarrow> 'a list" where
  "filter_array predicate a = filter predicate a"

subsection \<open>slice\<close>

text \<open>
  \<^verbatim>\<open>const slice = a => start => end => a.slice(start, end);\<close>

  \<^verbatim>\<open>Array.prototype.slice\<close> is the host's (ECMA-262, 23.1.3.28). With \<open>len\<close> the length of
  the receiver, an integer argument \<open>i\<close> becomes the position \<open>max (len + i) 0\<close> when
  \<open>i < 0\<close> and \<open>min i len\<close> otherwise; a missing \<^verbatim>\<open>end\<close> is \<open>len\<close>. The result holds the
  elements at the positions \<open>k, k + 1, \<dots>\<close> below \<open>final\<close>, that is
  \<open>max (final - k) 0\<close> elements. No step of the algorithm throws.
\<close>

definition relative_index :: "nat \<Rightarrow> int \<Rightarrow> nat" where
  "relative_index len i =
     (if i < 0 then nat (max (int len + i) 0) else nat (min i (int len)))"

definition array_slice :: "'a list \<Rightarrow> int \<Rightarrow> int option \<Rightarrow> 'a list" where
  "array_slice a start end' =
     (let len = length a;
          k = relative_index len start;
          final = (case end' of None \<Rightarrow> len | Some e \<Rightarrow> relative_index len e)
      in take (final - k) (drop k a))"

definition slice :: "'a list \<Rightarrow> int \<Rightarrow> int \<Rightarrow> 'a list" where
  "slice a start end' = array_slice a start (Some end')"

subsection \<open>reduce\<close>

text \<open>
  \<^verbatim>\<open>
  const reduce = a => fNil => fCons =>
      (a.length === 0) ? fNil() : fCons(a[0])(a.slice(1));
  \<close>
\<close>

definition reduce :: "'a list \<Rightarrow> (unit \<Rightarrow> 'b) \<Rightarrow> ('a \<Rightarrow> 'a list \<Rightarrow> 'b) \<Rightarrow> 'b" where
  "reduce a fNil fCons =
     (if length a = 0 then fNil () else fCons (a ! 0) (array_slice a 1 None))"

subsection \<open>zipWith\<close>

text \<open>
  \<^verbatim>\<open>
  const zipWith = f => a1 => a2 => {
      let result = [];
      const upper = Math.min(a1.length, a2.length);
      for (let lp = 0; lp < upper; lp +=1) { result.push(f(a1[lp])(a2[lp])); }
      return result;
  };
  \<close>
\<close>

function zipWith_loop ::
  "('a \<Rightarrow> 'b \<Rightarrow> 'c) \<Rightarrow> 'a list \<Rightarrow> 'b list \<Rightarrow> nat \<Rightarrow> nat \<Rightarrow> 'c list \<Rightarrow> 'c list" where
  "zipWith_loop f a1 a2 upper lp result =
     (if lp < upper
      then zipWith_loop f a1 a2 upper (lp + 1) (result @ [f (a1 ! lp) (a2 ! lp)])
      else result)"
  by pat_completeness auto
termination
  by (relation "measure (\<lambda>(f, a1, a2, upper, lp, result). upper - lp)") auto

declare zipWith_loop.simps [simp del]

definition zipWith :: "('a \<Rightarrow> 'b \<Rightarrow> 'c) \<Rightarrow> 'a list \<Rightarrow> 'b list \<Rightarrow> 'c list" where
  "zipWith f a1 a2 =
     (let upper = min (length a1) (length a2) in zipWith_loop f a1 a2 upper 0 [])"

subsection \<open>join\<close>



subsection \<open>sort\<close>

text \<open>
  \<^verbatim>\<open>const sort = compare => a => [...a].sort((x, y) => compare(x)(y));\<close>

  The spread copies \<open>a\<close>; the copy is sorted by the host's \<^verbatim>\<open>Array.prototype.sort\<close>
  with the uncurried comparator, and returned.
\<close>

text \<open>
  Modelled from the spec: the sorting algorithm behind \<^verbatim>\<open>Array.prototype.sort\<close> is the
  host's and is not part of the sources. The specification asks for a stable sort that
  orders the elements per \<^verbatim>\<open>compare\<close> and neither loses nor duplicates elements, and
  leaves the order open for a comparator that is not consistent; ECMA-262 (23.1.3.30)
  asks for a stable sort of every host since its 2019 edition and leaves the algorithm
  to the host, and with it the order in which the comparator is given two elements.
  \<open>array_sort\<close> is insertion sort, with the comparator called as current hosts call
  it, on the element from the later position first: an element \<open>x\<close> moves behind
  exactly those elements \<open>y\<close> of the sorted rest with \<open>comparefn y x < 0\<close>, and stops at
  the first \<open>y\<close> with \<open>comparefn y x \<ge> 0\<close>. For a consistent comparator every stable
  sort returns the same list (\<open>stable_sort_unique\<close> below); for any other comparator
  the order of the result is this algorithm's.
\<close>

fun insert_by :: "('a \<Rightarrow> 'a \<Rightarrow> int) \<Rightarrow> 'a \<Rightarrow> 'a list \<Rightarrow> 'a list" where
  "insert_by comparefn x [] = [x]"
| "insert_by comparefn x (y # ys) =
     (if comparefn y x < 0 then y # insert_by comparefn x ys else x # y # ys)"

fun array_sort :: "('a \<Rightarrow> 'a \<Rightarrow> int) \<Rightarrow> 'a list \<Rightarrow> 'a list" where
  "array_sort comparefn [] = []"
| "array_sort comparefn (x # xs) = insert_by comparefn x (array_sort comparefn xs)"

definition sort_array :: "('a \<Rightarrow> 'a \<Rightarrow> int) \<Rightarrow> 'a list \<Rightarrow> 'a list" where
  "sort_array compare a = array_sort (\<lambda>x y. compare x y) a"

text \<open>
  To speak about where each element of the input ends up, the same sort is run on the
  positions \<open>0, \<dots>, length a - 1\<close> of the input, comparing two positions by the elements
  found there. \<open>precedes u v xs\<close> says that \<open>u\<close> occurs in \<open>xs\<close> before an occurrence of
  \<open>v\<close>.
\<close>

definition sort_order :: "('a \<Rightarrow> 'a \<Rightarrow> int) \<Rightarrow> 'a list \<Rightarrow> nat list" where
  "sort_order compare a = array_sort (\<lambda>i j. compare (a ! i) (a ! j)) [0..<length a]"

fun precedes :: "'a \<Rightarrow> 'a \<Rightarrow> 'a list \<Rightarrow> bool" where
  "precedes u v [] = False"
| "precedes u v (x # xs) = ((x = u \<and> v \<in> set xs) \<or> precedes u v xs)"

text \<open>
  A comparator is consistent on a set of values (ECMA-262, 23.1.3.30.2, and the
  specification's total preorder) when, on these values, the sign of \<open>compare y x\<close> is
  the opposite of the sign of \<open>compare x y\<close>, and \<open>compare x y \<le> 0\<close> is transitive.
\<close>

definition consistent_on :: "('a \<Rightarrow> 'a \<Rightarrow> int) \<Rightarrow> 'a set \<Rightarrow> bool" where
  "consistent_on compare S \<longleftrightarrow>
     (\<forall>x\<in>S. \<forall>y\<in>S. (compare x y < 0) = (compare y x > 0))
     \<and> (\<forall>x\<in>S. \<forall>y\<in>S. \<forall>z\<in>S. compare x y \<le> 0 \<and> compare y z \<le> 0 \<longrightarrow> compare x z \<le> 0)"

text \<open>
  A comparator that is not consistent: it finds \<open>1\<close> and \<open>2\<close> equal when asked in this
  order, and \<open>2\<close> before \<open>1\<close> when asked in the other.
\<close>

definition skewed_compare :: "int \<Rightarrow> int \<Rightarrow> int" where
  "skewed_compare x y = (if x = 2 \<and> y = 1 then - 1 else 0)"

section \<open>The operations on arrays as mutable objects\<close>

text \<open>
  A JavaScript array is an object: \<^verbatim>\<open>push\<close> and \<^verbatim>\<open>sort\<close> change the array they
  are called on, and whoever holds a reference to it sees the change. To speak about
  what an operation does to the arrays it is given, the operations are modelled a
  second time over a store: the store is the list of all arrays that exist, the address of an
  array is its position in the store, allocation appends a new array, and an operation
  takes the addresses of its input arrays and the store and returns its result
  (an address or a value) and the store it leaves behind. An address handed to an
  operation is that of an existing array, so it is below the length of the store.

  Each operation follows its source line: an array literal, a spread and the host's
  \<^verbatim>\<open>slice\<close>, \<^verbatim>\<open>concat\<close>, \<^verbatim>\<open>map\<close> and \<^verbatim>\<open>filter\<close> allocate their result;
  \<^verbatim>\<open>result.push(v)\<close> writes to the array at \<open>result\<close>; \<^verbatim>\<open>[...a].sort(\<dots>)\<close> allocates
  a copy of \<open>a\<close>, sorts the copy in place and returns the copy's address. The functions
  passed by the caller (\<open>f\<close>, \<open>predicate\<close>, \<open>compare\<close>, \<open>fNil\<close>, \<open>fCons\<close>) are
  code of the caller; they compute a value and write to no array.
\<close>

type_synonym addr = nat
type_synonym 'v store = "'v list list"

definition alloc :: "'v list \<Rightarrow> 'v store \<Rightarrow> addr \<times> 'v store" where
  "alloc xs s = (length s, s @ [xs])"

definition push :: "addr \<Rightarrow> 'v \<Rightarrow> 'v store \<Rightarrow> 'v store" where
  "push r v s = s[r := s ! r @ [v]]"

definition sort_in_place :: "('v \<Rightarrow> 'v \<Rightarrow> int) \<Rightarrow> addr \<Rightarrow> 'v store \<Rightarrow> 'v store" where
  "sort_in_place comparefn r s = s[r := array_sort comparefn (s ! r)]"







function range_up_st :: "int \<Rightarrow> int \<Rightarrow> addr \<Rightarrow> int store \<Rightarrow> int store" where
  "range_up_st lp upper result s =
     (if lp < upper then range_up_st (lp + 1) upper result (push result lp s) else s)"
  by pat_completeness auto
termination
  by (relation "measure (\<lambda>(lp, upper, result, s). nat (upper - lp))") auto

function range_down_st :: "int \<Rightarrow> int \<Rightarrow> addr \<Rightarrow> int store \<Rightarrow> int store" where
  "range_down_st lp upper result s =
     (if lp > upper then range_down_st (lp - 1) upper result (push result lp s) else s)"
  by pat_completeness auto
termination
  by (relation "measure (\<lambda>(lp, upper, result, s). nat (lp - upper))") auto

declare range_up_st.simps [simp del] range_down_st.simps [simp del]

definition range_st :: "int \<Rightarrow> int \<Rightarrow> int store \<Rightarrow> addr \<times> int store" where
  "range_st lower upper s =
     (if lower < upper
      then (let (result, s1) = alloc [] s in (result, range_up_st lower upper result s1))
      else (let (result, s1) = alloc [] s in (result, range_down_st lower upper result s1)))"


definition reduce_st ::
  "addr \<Rightarrow> (unit \<Rightarrow> 'b) \<Rightarrow> ('v \<Rightarrow> 'v list \<Rightarrow> 'b) \<Rightarrow> 'v store \<Rightarrow> 'b \<times> 'v store" where
  "reduce_st a fNil fCons s =
     (if length (s ! a) = 0 then (fNil (), s)
      else (let (tail, s1) = alloc (array_slice (s ! a) 1 None) s
            in (fCons (s1 ! a ! 0) (s1 ! tail), s1)))"

function zipWith_loop_st ::
  "('v \<Rightarrow> 'v \<Rightarrow> 'v) \<Rightarrow> addr \<Rightarrow> addr \<Rightarrow> nat \<Rightarrow> nat \<Rightarrow> addr \<Rightarrow> 'v store \<Rightarrow> 'v store" where
  "zipWith_loop_st f a1 a2 upper lp result s =
     (if lp < upper
      then zipWith_loop_st f a1 a2 upper (lp + 1) result
             (push result (f (s ! a1 ! lp) (s ! a2 ! lp)) s)
      else s)"
  by pat_completeness auto
termination
  by (relation "measure (\<lambda>(f, a1, a2, upper, lp, result, s). upper - lp)") auto

declare zipWith_loop_st.simps [simp del]

definition zipWith_st ::
  "('v \<Rightarrow> 'v \<Rightarrow> 'v) \<Rightarrow> addr \<Rightarrow> addr \<Rightarrow> 'v store \<Rightarrow> addr \<times> 'v store" where
  "zipWith_st f a1 a2 s =
     (let (result, s1) = alloc [] s;
          upper = min (length (s1 ! a1)) (length (s1 ! a2))
      in (result, zipWith_loop_st f a1 a2 upper 0 result s1))"




definition sort_st :: "('v \<Rightarrow> 'v \<Rightarrow> int) \<Rightarrow> addr \<Rightarrow> 'v store \<Rightarrow> addr \<times> 'v store" where
  "sort_st compare a s =
     (let (copy, s1) = alloc (s ! a) s
      in (copy, sort_in_place (\<lambda>x y. compare x y) copy s1))"



section \<open>Properties\<close>

subsection \<open>findMap\<close>

lemma findMap_loop_skip:
  "lp \<le> k \<Longrightarrow> k \<le> length a \<Longrightarrow> \<forall>i. lp \<le> i \<and> i < k \<longrightarrow> \<not> isJust (f (a ! i)) \<Longrightarrow>
   findMap_loop a f lp calls = findMap_loop a f k (calls @ map (\<lambda>i. a ! i) [lp..<k])"
proof (induction k)
  case 0
  then show ?case by simp
next
  case (Suc k)
  show ?case
  proof (cases "lp = Suc k")
    case True
    then show ?thesis by simp
  next
    case False
    with Suc.prems have le: "lp \<le> k" and k: "k < length a" by simp_all
    from Suc.prems have nj: "\<not> isJust (f (a ! k))" using le by simp
    have "findMap_loop a f lp calls = findMap_loop a f k (calls @ map (\<lambda>i. a ! i) [lp..<k])"
      using Suc.IH le k Suc.prems(3) by simp
    also have "\<dots> = findMap_loop a f (Suc k) ((calls @ map (\<lambda>i. a ! i) [lp..<k]) @ [a ! k])"
      using k nj by (subst findMap_loop.simps) (simp add: Let_def)
    finally show ?thesis using le by simp
  qed
qed

lemma map_nth_upt_take: "k \<le> length a \<Longrightarrow> map (\<lambda>i. a ! i) [0..<k] = take k a"
  by (simp add: list_eq_iff_nth_eq)

text \<open>
  C1. \<open>findMap a f\<close> is the result of \<open>f\<close> at the first element whose result is a \<open>Just\<close>,
  and \<open>f\<close> has then been evaluated on the elements up to and including that one, in
  order, and on no later element. When no element gives a \<open>Just\<close> (the empty array
  included) the result is \<open>Nothing\<close> and \<open>f\<close> has been evaluated on every element once.
\<close>

theorem findMap_first_present:
  "(k < length a \<and> isJust (f (a ! k)) \<and> (\<forall>i<k. \<not> isJust (f (a ! i)))
      \<longrightarrow> findMap a f = f (a ! k) \<and> findMap_evaluated a f = take (Suc k) a)
   \<and> ((\<forall>i<length a. \<not> isJust (f (a ! i)))
      \<longrightarrow> findMap a f = Nothing \<and> findMap_evaluated a f = a)
   \<and> findMap [] f = Nothing \<and> findMap_evaluated [] f = []"
proof (intro conjI impI)
  assume h: "k < length a \<and> isJust (f (a ! k)) \<and> (\<forall>i<k. \<not> isJust (f (a ! i)))"
  then have "findMap_loop a f 0 [] = findMap_loop a f k ([] @ map (\<lambda>i. a ! i) [0..<k])"
    by (intro findMap_loop_skip) simp_all
  also have "\<dots> = findMap_loop a f k (take k a)"
    using h by (simp add: map_nth_upt_take)
  also have "\<dots> = (f (a ! k), take k a @ [a ! k])"
    using h by (subst findMap_loop.simps) (simp add: Let_def)
  finally have run: "findMap_loop a f 0 [] = (f (a ! k), take (Suc k) a)"
    using h by (simp add: take_Suc_conv_app_nth)
  show "findMap a f = f (a ! k)" using run by (simp add: findMap_def)
  show "findMap_evaluated a f = take (Suc k) a" using run by (simp add: findMap_evaluated_def)
next
  assume h: "\<forall>i<length a. \<not> isJust (f (a ! i))"
  then have "findMap_loop a f 0 [] =
      findMap_loop a f (length a) ([] @ map (\<lambda>i. a ! i) [0..<length a])"
    by (intro findMap_loop_skip) simp_all
  also have "\<dots> = (Nothing, a)"
    by (subst findMap_loop.simps) (simp add: map_nth)
  finally have run: "findMap_loop a f 0 [] = (Nothing, a)" .
  show "findMap a f = Nothing" using run by (simp add: findMap_def)
  show "findMap_evaluated a f = a" using run by (simp add: findMap_evaluated_def)
next
  show "findMap [] f = Nothing"
    by (simp add: findMap_def findMap_loop.simps)
  show "findMap_evaluated [] f = []"
    by (simp add: findMap_evaluated_def findMap_loop.simps)
qed

theorem findMap_first_present_witness:
  "findMap [1, 2, 3, 4 :: int] (\<lambda>x. if 1 < x then Just (10 * x) else Nothing) = Just 20
   \<and> findMap_evaluated [1, 2, 3, 4 :: int] (\<lambda>x. if 1 < x then Just (10 * x) else Nothing) = [1, 2]
   \<and> findMap [1, 2 :: int] (\<lambda>x. (Nothing :: int Maybe)) = Nothing
   \<and> findMap_evaluated [1, 2 :: int] (\<lambda>x. (Nothing :: int Maybe)) = [1, 2]"
proof -
  let ?f = "\<lambda>x::int. if 1 < x then Just (10 * x) else Nothing"
  have h1: "1 < length [1, 2, 3, 4 :: int] \<and> isJust (?f ([1, 2, 3, 4] ! 1))
      \<and> (\<forall>i<1. \<not> isJust (?f ([1, 2, 3, 4] ! i)))"
    by simp
  have h2: "\<forall>i<length [1, 2 :: int]. \<not> isJust ((\<lambda>x. (Nothing :: int Maybe)) ([1, 2] ! i))"
    by simp
  from h1 findMap_first_present [of 1 "[1, 2, 3, 4]" ?f]
  have "findMap [1, 2, 3, 4] ?f = ?f ([1, 2, 3, 4] ! 1)
      \<and> findMap_evaluated [1, 2, 3, 4] ?f = take (Suc 1) [1, 2, 3, 4]"
    by blast
  moreover from h2 findMap_first_present [of 0 "[1, 2 :: int]" "\<lambda>x. (Nothing :: int Maybe)"]
  have "findMap [1, 2 :: int] (\<lambda>x. (Nothing :: int Maybe)) = Nothing
      \<and> findMap_evaluated [1, 2 :: int] (\<lambda>x. (Nothing :: int Maybe)) = [1, 2]"
    by blast
  ultimately show ?thesis by simp
qed

subsection \<open>at\<close>

text \<open>
  C3. \<open>at seq index\<close> is \<open>Just\<close> the element at \<open>index\<close> when \<open>0 \<le> index < length seq\<close>
  and \<open>Nothing\<close> otherwise; a negative index always gives \<open>Nothing\<close>.
\<close>

theorem at_present_iff_in_range:
  "(0 \<le> index \<and> index < int (length seq) \<longrightarrow> at seq index = Just (seq ! nat index))
   \<and> (\<not> (0 \<le> index \<and> index < int (length seq)) \<longrightarrow> at seq index = Nothing)
   \<and> (index < 0 \<longrightarrow> at seq index = Nothing)"
  by (auto simp: at_def)

theorem at_present_iff_in_range_witness:
  "at [1, 2, 3, 4 :: int] 3 = Just 4 \<and> at [1, 2, 3, 4 :: int] 9 = Nothing
   \<and> at [1, 2, 3, 4 :: int] (- 2) = Nothing"
proof -
  have "at [1, 2, 3, 4 :: int] 3 = Just ([1, 2, 3, 4] ! nat 3)"
    using at_present_iff_in_range [of 3 "[1, 2, 3, 4 :: int]"] by simp
  moreover have "at [1, 2, 3, 4 :: int] 9 = Nothing"
    using at_present_iff_in_range [of 9 "[1, 2, 3, 4 :: int]"] by simp
  moreover have "at [1, 2, 3, 4 :: int] (- 2) = Nothing"
    using at_present_iff_in_range [of "- 2" "[1, 2, 3, 4 :: int]"] by simp
  ultimately show ?thesis by (simp add: eval_nat_numeral)
qed

subsection \<open>range\<close>

text \<open>Up to \<open>2 ^ 53\<close> in absolute value every integer is a number.\<close>

lemma bit_length_le: "n < 2 ^ k \<Longrightarrow> bit_length n \<le> k"
proof (induction k arbitrary: n)
  case 0
  then show ?case by (simp add: bit_length.simps)
next
  case (Suc k)
  show ?case
  proof (cases "n = 0")
    case True
    then show ?thesis by (simp add: bit_length.simps)
  next
    case False
    from Suc.prems have "n div 2 < 2 ^ k" by simp
    then have "bit_length (n div 2) \<le> k" by (rule Suc.IH)
    with False show ?thesis by (subst bit_length.simps) simp
  qed
qed



lemma to_double_exact: "n \<le> 2 ^ 53 \<Longrightarrow> to_double n = n"
proof (cases "n = 2 ^ 53")
  case True
  have "bit_length (2 ^ 53) = 54" by (simp add: bit_length.simps)
  then have "to_double (2 ^ 53) = 2 ^ 53"
    by (simp add: to_double_def round_nearest_even_def)
  with True show ?thesis by simp
next
  case False
  assume "n \<le> 2 ^ 53"
  with False have "n < 2 ^ 53" by simp
  then have "bit_length n - 53 = 0" using bit_length_le by simp
  then show ?thesis by (simp add: to_double_def round_nearest_even_def)
qed

lemma js_number_exact: "\<bar>i\<bar> \<le> 2 ^ 53 \<Longrightarrow> js_number i = i"
proof (cases "i < 0")
  case True
  assume "\<bar>i\<bar> \<le> 2 ^ 53"
  with True have "nat (- i) \<le> 2 ^ 53" by (simp add: nat_le_iff)
  with True show ?thesis by (simp add: js_number_def to_double_exact)
next
  case False
  assume "\<bar>i\<bar> \<le> 2 ^ 53"
  with False have "nat i \<le> 2 ^ 53" by (simp add: nat_le_iff)
  with False show ?thesis by (simp add: js_number_def to_double_exact)
qed

lemma upt_0_Suc_shift: "[0..<Suc n] = 0 # map Suc [0..<n]"
  by (simp add: upt_conv_Cons map_Suc_upt del: upt_Suc)

lemma range_up_safe:
  "\<bar>lp\<bar> \<le> 2 ^ 53 \<Longrightarrow> \<bar>upper\<bar> \<le> 2 ^ 53 \<Longrightarrow>
   range_up lp upper result = Some (result @ map (\<lambda>k. lp + int k) [0..<nat (upper - lp)])"
proof (induction n \<equiv> "nat (upper - lp)" arbitrary: lp result)
  case 0
  then have "\<not> lp < upper" by simp
  with 0 show ?case by (subst range_up.simps) simp
next
  case (Suc n)
  then have lt: "lp < upper" by linarith
  with Suc.prems have next_safe: "\<bar>lp + 1\<bar> \<le> 2 ^ 53" by linarith
  have n: "n = nat (upper - (lp + 1))" using Suc.hyps(2) by linarith
  have "range_up lp upper result = range_up (js_number (lp + 1)) upper (result @ [lp])"
    using lt by (subst range_up.simps) simp
  also have "\<dots> = range_up (lp + 1) upper (result @ [lp])"
    using next_safe by (simp add: js_number_exact)
  also have "\<dots> = Some ((result @ [lp]) @ map (\<lambda>k. lp + 1 + int k) [0..<nat (upper - (lp + 1))])"
    using n next_safe Suc.prems(2) by (rule Suc.hyps(1))
  also have "\<dots> = Some (result @ map (\<lambda>k. lp + int k) [0..<nat (upper - lp)])"
    unfolding n [symmetric] Suc.hyps(2) [symmetric] upt_0_Suc_shift by (simp add: comp_def)
  finally show ?case .
qed

lemma range_down_safe:
  "\<bar>lp\<bar> \<le> 2 ^ 53 \<Longrightarrow> \<bar>upper\<bar> \<le> 2 ^ 53 \<Longrightarrow>
   range_down lp upper result = Some (result @ map (\<lambda>k. lp - int k) [0..<nat (lp - upper)])"
proof (induction n \<equiv> "nat (lp - upper)" arbitrary: lp result)
  case 0
  then have "\<not> lp > upper" by simp
  with 0 show ?case by (subst range_down.simps) simp
next
  case (Suc n)
  then have gt: "lp > upper" by linarith
  with Suc.prems have next_safe: "\<bar>lp - 1\<bar> \<le> 2 ^ 53" by linarith
  have n: "n = nat (lp - 1 - upper)" using Suc.hyps(2) by linarith
  have "range_down lp upper result = range_down (js_number (lp - 1)) upper (result @ [lp])"
    using gt by (subst range_down.simps) simp
  also have "\<dots> = range_down (lp - 1) upper (result @ [lp])"
    using next_safe by (simp add: js_number_exact)
  also have "\<dots> = Some ((result @ [lp]) @ map (\<lambda>k. lp - 1 - int k) [0..<nat (lp - 1 - upper)])"
    using n next_safe Suc.prems(2) by (rule Suc.hyps(1))
  also have "\<dots> = Some (result @ map (\<lambda>k. lp - int k) [0..<nat (lp - upper)])"
    unfolding n [symmetric] Suc.hyps(2) [symmetric] upt_0_Suc_shift by (simp add: comp_def)
  finally show ?case .
qed

text \<open>
  Beyond \<open>2 ^ 53\<close> only every second integer is a number: \<open>2 ^ 53 + 1\<close> rounds to
  \<open>2 ^ 53\<close>, the ascending loop from \<open>2 ^ 53\<close> never moves on and the call returns
  nothing.
\<close>

lemma range_up_stuck:
  assumes "range_up lp upper result = Some y"
  shows "\<not> (lp = 2 ^ 53 \<and> upper = 2 ^ 53 + 2)"
proof (rule range_up.raw_induct
    [where P = "\<lambda>lp upper result y. \<not> (lp = 2 ^ 53 \<and> upper = 2 ^ 53 + 2)", OF _ assms])
  fix f :: "int \<Rightarrow> int \<Rightarrow> int list \<Rightarrow> int list option"
  fix lp upper :: int and result y :: "int list"
  assume IH: "\<And>lp upper result y. f lp upper result = Some y \<Longrightarrow>
      \<not> (lp = 2 ^ 53 \<and> upper = 2 ^ 53 + 2)"
    and step: "(if lp < upper then f (js_number (lp + 1)) upper (result @ [lp])
      else Some result) = Some y"
  show "\<not> (lp = 2 ^ 53 \<and> upper = 2 ^ 53 + 2)"
  proof
    assume h: "lp = 2 ^ 53 \<and> upper = 2 ^ 53 + 2"
    have "js_number (2 ^ 53 + 1) = 2 ^ 53"
      by (simp add: js_number_def to_double_def round_nearest_even_def bit_length.simps)
    with h step have "f (2 ^ 53) (2 ^ 53 + 2) (result @ [lp]) = Some y" by simp
    then have "\<not> ((2 ^ 53 :: int) = 2 ^ 53 \<and> (2 ^ 53 + 2 :: int) = 2 ^ 53 + 2)" by (rule IH)
    then show False by simp
  qed
qed

lemma range_never_returns: "range_array (2 ^ 53) (2 ^ 53 + 2) = None"
proof (cases "range_array (2 ^ 53) (2 ^ 53 + 2)")
  case None
  then show ?thesis .
next
  case (Some y)
  then have "range_up (2 ^ 53) (2 ^ 53 + 2) [] = Some y" by (simp add: range_array_def)
  with range_up_stuck show ?thesis by blast
qed

text \<open>
  C4. As the code has it: for \<open>lower\<close> and \<open>upper\<close> of absolute value at most \<open>2 ^ 53\<close>,
  \<open>range\<close> returns \<open>lower, lower + 1, \<dots>, upper - 1\<close> when \<open>lower < upper\<close> and
  \<open>lower, lower - 1, \<dots>, upper + 1\<close> when \<open>lower \<ge> upper\<close>, never with \<open>upper\<close> in it;
  for \<open>lower = upper\<close> it returns the empty array, whatever the number.
\<close>

theorem range_safe_integers:
  "(\<bar>lower\<bar> \<le> 2 ^ 53 \<and> \<bar>upper\<bar> \<le> 2 ^ 53 \<and> lower < upper \<longrightarrow>
      range_array lower upper = Some (map (\<lambda>k. lower + int k) [0..<nat (upper - lower)]))
   \<and> (\<bar>lower\<bar> \<le> 2 ^ 53 \<and> \<bar>upper\<bar> \<le> 2 ^ 53 \<and> lower \<ge> upper \<longrightarrow>
      range_array lower upper = Some (map (\<lambda>k. lower - int k) [0..<nat (lower - upper)]))
   \<and> (\<bar>lower\<bar> \<le> 2 ^ 53 \<and> \<bar>upper\<bar> \<le> 2 ^ 53 \<longrightarrow>
      (\<exists>result. range_array lower upper = Some result \<and> upper \<notin> set result))
   \<and> range_array n n = Some []"
proof (intro conjI impI)
  assume h: "\<bar>lower\<bar> \<le> 2 ^ 53 \<and> \<bar>upper\<bar> \<le> 2 ^ 53 \<and> lower < upper"
  then show "range_array lower upper = Some (map (\<lambda>k. lower + int k) [0..<nat (upper - lower)])"
    by (simp add: range_array_def range_up_safe)
next
  assume h: "\<bar>lower\<bar> \<le> 2 ^ 53 \<and> \<bar>upper\<bar> \<le> 2 ^ 53 \<and> lower \<ge> upper"
  then show "range_array lower upper = Some (map (\<lambda>k. lower - int k) [0..<nat (lower - upper)])"
    by (simp add: range_array_def range_down_safe)
next
  assume h: "\<bar>lower\<bar> \<le> 2 ^ 53 \<and> \<bar>upper\<bar> \<le> 2 ^ 53"
  show "\<exists>result. range_array lower upper = Some result \<and> upper \<notin> set result"
  proof (cases "lower < upper")
    case True
    with h have "range_array lower upper = Some (map (\<lambda>k. lower + int k) [0..<nat (upper - lower)])"
      by (simp add: range_array_def range_up_safe)
    moreover have "upper \<notin> set (map (\<lambda>k. lower + int k) [0..<nat (upper - lower)])" by auto
    ultimately show ?thesis by blast
  next
    case False
    with h have "range_array lower upper = Some (map (\<lambda>k. lower - int k) [0..<nat (lower - upper)])"
      by (simp add: range_array_def range_down_safe)
    moreover have "upper \<notin> set (map (\<lambda>k. lower - int k) [0..<nat (lower - upper)])" by auto
    ultimately show ?thesis by blast
  qed
next
  show "range_array n n = Some []"
    by (simp add: range_array_def range_down.simps)
qed

theorem range_safe_integers_witness:
  "range_array 1 10 = Some [1, 2, 3, 4, 5, 6, 7, 8, 9]
   \<and> range_array 10 1 = Some [10, 9, 8, 7, 6, 5, 4, 3, 2]"
proof -
  have h1: "\<bar>1 :: int\<bar> \<le> 2 ^ 53 \<and> \<bar>10 :: int\<bar> \<le> 2 ^ 53 \<and> (1 :: int) < 10" by simp
  have h2: "\<bar>10 :: int\<bar> \<le> 2 ^ 53 \<and> \<bar>1 :: int\<bar> \<le> 2 ^ 53 \<and> (10 :: int) \<ge> 1" by simp
  have c1: "range_array 1 10 = Some (map (\<lambda>k. 1 + int k) [0..<nat (10 - 1)])"
    using range_safe_integers [of 1 10] h1 by blast
  have c2: "range_array 10 1 = Some (map (\<lambda>k. 10 - int k) [0..<nat (10 - 1)])"
    using range_safe_integers [of 10 1] h2 by blast
  from c1 have "range_array 1 10 = Some [1, 2, 3, 4, 5, 6, 7, 8, 9]"
    by (simp add: upt_rec)
  moreover from c2 have "range_array 10 1 = Some [10, 9, 8, 7, 6, 5, 4, 3, 2]"
    by (simp add: upt_rec)
  ultimately show ?thesis by blast
qed

text \<open>
  C4. Stated for all integers, the property fails at
  \<open>lower = 2 ^ 53 + 2\<close> and \<open>upper = 2 ^ 53 - 1\<close>, both of them numbers: the loop
  steps from \<open>2 ^ 53 + 2\<close> to \<open>2 ^ 53\<close>, and the result has two elements, not the three
  from \<open>lower\<close> down to \<open>upper + 1\<close>.
\<close>

theorem range_beyond_safe_integers:
  "js_number 9007199254740994 = 9007199254740994
   \<and> js_number 9007199254740991 = 9007199254740991
   \<and> range_array 9007199254740994 9007199254740991
       = Some [9007199254740994, 9007199254740992]
   \<and> range_array 9007199254740994 9007199254740991
       \<noteq> Some [9007199254740994, 9007199254740993, 9007199254740992]"
  by (simp add: range_array_def range_down.simps js_number_def to_double_def
      round_nearest_even_def bit_length.simps)

subsection \<open>slice\<close>

lemma relative_index_le: "relative_index len i \<le> len"
  unfolding relative_index_def by (simp add: nat_le_iff)

lemma slice_eq:
  "slice a start end' =
     take (relative_index (length a) end' - relative_index (length a) start)
          (drop (relative_index (length a) start) a)"
  by (simp add: slice_def array_slice_def Let_def)

text \<open>
  C5. \<open>slice\<close> has a result for all integers \<open>start\<close> and \<open>end\<close>: both are turned into
  positions between \<open>0\<close> and the length, and the result is read from the positions of
  the array between them, so nothing is read out of range. A negative index \<open>i\<close> with
  \<open>- length \<le> i\<close> stands for \<open>length + i\<close>, so \<open>- 1\<close> is the last element. When the
  position of \<open>start\<close> is at or past the position of \<open>end\<close>, when \<open>start\<close> is at or past
  the length, and when \<open>end\<close> is at or below minus the length, the result is empty.
\<close>

theorem slice_total_negative_empty:
  "slice a start end' =
      map (\<lambda>i. a ! i) [relative_index (length a) start..<relative_index (length a) end']
   \<and> relative_index (length a) start \<le> length a
   \<and> relative_index (length a) end' \<le> length a
   \<and> (- int (length a) \<le> start \<and> start < 0 \<longrightarrow>
        slice a start end' = slice a (int (length a) + start) end')
   \<and> (- int (length a) \<le> end' \<and> end' < 0 \<longrightarrow>
        slice a start end' = slice a start (int (length a) + end'))
   \<and> (a \<noteq> [] \<longrightarrow> slice a (- 1) (int (length a)) = [last a])
   \<and> (relative_index (length a) end' \<le> relative_index (length a) start \<longrightarrow>
        slice a start end' = [])
   \<and> (int (length a) \<le> start \<longrightarrow> slice a start end' = [])
   \<and> (end' \<le> - int (length a) \<longrightarrow> slice a start end' = [])"
proof (intro conjI impI)
  let ?k = "relative_index (length a) start" and ?f = "relative_index (length a) end'"
  have k: "?k \<le> length a" and f: "?f \<le> length a" by (rule relative_index_le)+
  show "slice a start end' = map (\<lambda>i. a ! i) [?k..<?f]"
    unfolding slice_eq using k f
    by (auto simp: list_eq_iff_nth_eq)
  show "?k \<le> length a" by fact
  show "?f \<le> length a" by fact
next
  assume "- int (length a) \<le> start \<and> start < 0"
  then show "slice a start end' = slice a (int (length a) + start) end'"
    by (simp add: slice_eq relative_index_def)
next
  assume "- int (length a) \<le> end' \<and> end' < 0"
  then show "slice a start end' = slice a start (int (length a) + end')"
    by (simp add: slice_eq relative_index_def)
next
  assume "a \<noteq> []"
  then show "slice a (- 1) (int (length a)) = [last a]"
    by (cases a rule: rev_cases) (simp_all add: slice_eq relative_index_def)
next
  assume "relative_index (length a) end' \<le> relative_index (length a) start"
  then show "slice a start end' = []" by (simp add: slice_eq)
next
  assume "int (length a) \<le> start"
  then show "slice a start end' = []" by (simp add: slice_eq relative_index_def)
next
  assume "end' \<le> - int (length a)"
  then show "slice a start end' = []" by (simp add: slice_eq relative_index_def)
qed

theorem slice_total_negative_empty_witness:
  "slice [1, 2, 3, 4 :: int] (- 3) 3 = slice [1, 2, 3, 4] 1 3
   \<and> slice [1, 2, 3, 4 :: int] 1 (- 1) = slice [1, 2, 3, 4] 1 3
   \<and> slice [1, 2, 3, 4 :: int] (- 1) 4 = [4]
   \<and> slice [1, 2, 3, 4 :: int] 3 (- 1) = []
   \<and> slice [1, 2, 3, 4 :: int] 10 12 = []
   \<and> slice [1, 2, 3, 4 :: int] 1 (- 9) = []"
proof -
  let ?a = "[1, 2, 3, 4 :: int]"
  have h1: "- int (length ?a) \<le> - 3 \<and> (- 3 :: int) < 0" by simp
  have c1: "slice ?a (- 3) 3 = slice ?a (int (length ?a) + - 3) 3"
    using slice_total_negative_empty [of ?a "- 3" 3] h1 by blast
  have h2: "- int (length ?a) \<le> - 1 \<and> (- 1 :: int) < 0" by simp
  have c2: "slice ?a 1 (- 1) = slice ?a 1 (int (length ?a) + - 1)"
    using slice_total_negative_empty [of ?a 1 "- 1"] h2 by blast
  have h3: "?a \<noteq> []" by simp
  have c3: "slice ?a (- 1) (int (length ?a)) = [last ?a]"
    using slice_total_negative_empty [of ?a 0 0] h3 by blast
  have h4: "relative_index (length ?a) (- 1) \<le> relative_index (length ?a) 3"
    by (simp add: relative_index_def)
  have c4: "slice ?a 3 (- 1) = []"
    using slice_total_negative_empty [of ?a 3 "- 1"] h4 by blast
  have h5: "int (length ?a) \<le> 10" by simp
  have c5: "slice ?a 10 12 = []"
    using slice_total_negative_empty [of ?a 10 12] h5 by blast
  have h6: "(- 9 :: int) \<le> - int (length ?a)" by simp
  have c6: "slice ?a 1 (- 9) = []"
    using slice_total_negative_empty [of ?a 1 "- 9"] h6 by blast
  from c1 have "slice ?a (- 3) 3 = slice ?a 1 3" by simp
  moreover from c2 have "slice ?a 1 (- 1) = slice ?a 1 3" by simp
  moreover from c3 have "slice ?a (- 1) 4 = [4]" by simp
  ultimately show ?thesis using c4 c5 c6 by blast
qed



lemma slice_examples:
  "slice [1, 2, 3, 4 :: int] 1 3 = [2, 3]"
  "slice [1, 2, 3, 4 :: int] 3 (- 1) = []"
  "slice [1, 2, 3, 4 :: int] 10 12 = []"
  "slice [1, 2, 3, 4 :: int] 1 100 = [2, 3, 4]"
  by (simp_all add: slice_eq relative_index_def)

subsection \<open>zipWith\<close>

lemma zipWith_loop_eq:
  "lp \<le> upper \<Longrightarrow>
   zipWith_loop f a1 a2 upper lp result = result @ map (\<lambda>i. f (a1 ! i) (a2 ! i)) [lp..<upper]"
proof (induction f a1 a2 upper lp result rule: zipWith_loop.induct)
  case (1 f a1 a2 upper lp result)
  show ?case
  proof (cases "lp < upper")
    case True
    have "zipWith_loop f a1 a2 upper lp result =
        zipWith_loop f a1 a2 upper (lp + 1) (result @ [f (a1 ! lp) (a2 ! lp)])"
      using True by (subst zipWith_loop.simps) simp
    also have "\<dots> = (result @ [f (a1 ! lp) (a2 ! lp)]) @ map (\<lambda>i. f (a1 ! i) (a2 ! i)) [lp + 1..<upper]"
      using "1.IH" True by simp
    also have "\<dots> = result @ map (\<lambda>i. f (a1 ! i) (a2 ! i)) [lp..<upper]"
      using True by (simp add: upt_conv_Cons)
    finally show ?thesis .
  next
    case False
    then show ?thesis by (subst zipWith_loop.simps) simp
  qed
qed

lemma zipWith_eq:
  "zipWith f a1 a2 = map (\<lambda>i. f (a1 ! i) (a2 ! i)) [0..<min (length a1) (length a2)]"
  by (simp add: zipWith_def Let_def zipWith_loop_eq)

text \<open>
  C7. \<open>zipWith f seq1 seq2\<close> has the length of the shorter input, its element at each
  index \<open>i\<close> is \<open>f (seq1 ! i) (seq2 ! i)\<close>, and the elements of the longer input beyond
  that length play no part: cutting both inputs to the shorter length gives the same
  result.
\<close>

theorem zipWith_shorter:
  "length (zipWith f seq1 seq2) = min (length seq1) (length seq2)
   \<and> (\<forall>i<min (length seq1) (length seq2). zipWith f seq1 seq2 ! i = f (seq1 ! i) (seq2 ! i))
   \<and> zipWith f seq1 seq2 =
       zipWith f (take (min (length seq1) (length seq2)) seq1)
                 (take (min (length seq1) (length seq2)) seq2)
   \<and> zipWith f seq1 seq2 = map2 f seq1 seq2"
  apply (intro conjI)
  apply (simp add: zipWith_eq)
    apply (simp add: zipWith_eq)
   apply (simp add: zipWith_eq)
  apply (simp add: zipWith_eq list_eq_iff_nth_eq)
  done

theorem zipWith_shorter_witness:
  "zipWith (\<lambda>v1 v2. v1 * v2) [1, 2, 3] [4, 5, 6, 7 :: int] ! 2 = 18
   \<and> length (zipWith (\<lambda>v1 v2. v1 * v2) [1, 2, 3] [4, 5, 6, 7 :: int]) = 3"
proof -
  let ?f = "\<lambda>v1 v2 :: int. v1 * v2"
  have h: "2 < min (length [1, 2, 3 :: int]) (length [4, 5, 6, 7 :: int])" by simp
  from zipWith_shorter [of ?f "[1, 2, 3]" "[4, 5, 6, 7]"]
  have "\<forall>i<min (length [1, 2, 3 :: int]) (length [4, 5, 6, 7 :: int]).
          zipWith ?f [1, 2, 3] [4, 5, 6, 7] ! i = ?f ([1, 2, 3] ! i) ([4, 5, 6, 7] ! i)"
    and "length (zipWith ?f [1, 2, 3] [4, 5, 6, 7]) = min (length [1, 2, 3 :: int]) (length [4, 5, 6, 7 :: int])"
    by blast+
  with h show ?thesis by simp
qed

lemma zipWith_examples:
  "zipWith (\<lambda>v1 v2. v1 * v2) [] ([] :: int list) = []"
  "zipWith (\<lambda>v1 v2. v1 * v2) [1, 2, 3] ([] :: int list) = []"
  "zipWith (\<lambda>v1 v2. v1 * v2) [1, 2, 3] [4, 5, 6, 7 :: int] = [4, 10, 18]"
  "zipWith (\<lambda>v1 v2. v1 * v2) [1, 2, 3, 4, 5, 6] [4, 5, 6 :: int] = [4, 10, 18]"
  by (simp_all add: zipWith_eq upt_rec)

subsection \<open>reduce\<close>

text \<open>
  C8. \<open>reduce\<close> on the empty array is \<open>onEmpty ()\<close>; on a non-empty array it is
  \<open>onNonEmpty\<close> applied once to the first element and to the array of the remaining
  elements, and that value is returned as it is.
\<close>

theorem reduce_head_tail:
  "reduce [] onEmpty onNonEmpty = onEmpty ()
   \<and> reduce (x # xs) onEmpty onNonEmpty = onNonEmpty x xs
   \<and> (seq \<noteq> [] \<longrightarrow> reduce seq onEmpty onNonEmpty = onNonEmpty (seq ! 0) (drop 1 seq))"
  by (cases seq) (simp_all add: reduce_def array_slice_def relative_index_def)

theorem reduce_head_tail_witness:
  "reduce [1, 2, 3 :: int] (\<lambda>u. None) (\<lambda>h t. Some (h, t)) = Some (1, [2, 3])"
proof -
  let ?seq = "[1, 2, 3 :: int]"
  let ?n = "\<lambda>u :: unit. (None :: (int \<times> int list) option)"
  let ?c = "\<lambda>(h :: int) (t :: int list). Some (h, t)"
  have h: "?seq \<noteq> []" by simp
  have "reduce ?seq ?n ?c = ?c (?seq ! 0) (drop 1 ?seq)"
    using reduce_head_tail [where seq = ?seq and onEmpty = ?n and onNonEmpty = ?c] h by blast
  then show ?thesis by simp
qed

subsection \<open>concat\<close>

text \<open>
  C9. The empty array is a left and right identity of \<open>concat\<close>; \<open>concat seq1 seq2\<close>
  has \<open>length seq1 + length seq2\<close> elements, the first \<open>length seq1\<close> of them those of
  \<open>seq1\<close> in order, the rest those of \<open>seq2\<close> in order.
\<close>

theorem concat_identity_and_length:
  "concat_array s [] = s \<and> concat_array [] s = s
   \<and> length (concat_array seq1 seq2) = length seq1 + length seq2
   \<and> (\<forall>i<length seq1. concat_array seq1 seq2 ! i = seq1 ! i)
   \<and> (\<forall>i<length seq2. concat_array seq1 seq2 ! (length seq1 + i) = seq2 ! i)"
  by (simp add: concat_array_def nth_append)


theorem concat_identity_and_length_witness:
  "concat_array [1, 2] [3, 4 :: int] ! 1 = 2 \<and> concat_array [1, 2] [3, 4 :: int] ! 3 = 4"
proof -
  note t = concat_identity_and_length [where ?seq1.0 = "[1, 2 :: int]" and ?seq2.0 = "[3, 4]"
      and s = "[]"]
  have a: "\<forall>i<length [1, 2 :: int]. concat_array [1, 2] [3, 4 :: int] ! i = [1, 2] ! i"
    by (rule conjunct1 [OF conjunct2 [OF conjunct2 [OF conjunct2 [OF t]]]])
  have b: "\<forall>i<length [3, 4 :: int].
              concat_array [1, 2 :: int] [3, 4] ! (length [1, 2 :: int] + i) = [3, 4] ! i"
    by (rule conjunct2 [OF conjunct2 [OF conjunct2 [OF conjunct2 [OF t]]]])
  have h: "1 < length [1, 2 :: int]" "1 < length [3, 4 :: int]" by simp_all
  have "concat_array [1, 2] [3, 4 :: int] ! 1 = [1, 2] ! 1"
    using a h(1) by blast
  moreover have "concat_array [1, 2] [3, 4 :: int] ! (length [1, 2 :: int] + 1) = [3, 4] ! 1"
    using b h(2) by blast
  ultimately show ?thesis by (simp add: eval_nat_numeral)
qed

subsection \<open>sort\<close>

lemma mset_insert_by: "mset (insert_by c x ys) = add_mset x (mset ys)"
  by (induction ys) simp_all

lemma mset_array_sort: "mset (array_sort c xs) = mset xs"
  by (induction xs) (simp_all add: mset_insert_by)

lemma set_insert_by: "set (insert_by c x ys) = insert x (set ys)"
  by (induction ys) auto

lemma set_array_sort: "set (array_sort c xs) = set xs"
  by (induction xs) (simp_all add: set_insert_by)

lemma map_insert_by:
  "map f (insert_by (\<lambda>i j. c (f i) (f j)) x ys) = insert_by c (f x) (map f ys)"
  by (induction ys) simp_all

lemma map_array_sort:
  "map f (array_sort (\<lambda>i j. c (f i) (f j)) xs) = array_sort c (map f xs)"
  by (induction xs) (simp_all add: map_insert_by)

lemma precedes_insert_by_old:
  "precedes u v ys \<Longrightarrow> precedes u v (insert_by c x ys)"
  by (induction ys) (auto simp: set_insert_by)

lemma precedes_insert_by_new:
  "v \<in> set ys \<Longrightarrow> \<not> c v x < 0 \<Longrightarrow> precedes x v (insert_by c x ys)"
  by (induction ys) auto

lemma precedes_array_sort:
  "precedes u v xs \<Longrightarrow> \<not> c v u < 0 \<Longrightarrow> precedes u v (array_sort c xs)"
proof (induction xs)
  case Nil
  then show ?case by simp
next
  case (Cons x xs)
  from Cons.prems(1) consider "x = u" "v \<in> set xs" | "precedes u v xs" by auto
  then show ?case
  proof cases
    case 1
    then show ?thesis
      using Cons.prems(2) by (simp add: precedes_insert_by_new set_array_sort)
  next
    case 2
    then show ?thesis
      using Cons.IH Cons.prems(2) by (simp add: precedes_insert_by_old)
  qed
qed

lemma precedes_append: "v \<in> set zs \<Longrightarrow> precedes u v (ys @ u # zs)"
  by (induction ys) simp_all

lemma precedes_upt: "i < j \<Longrightarrow> j < n \<Longrightarrow> precedes i j [0..<n]"
proof -
  assume ij: "i < j" and jn: "j < n"
  then have "[0..<n] = [0..<i] @ i # [Suc i..<n]"
    by (metis less_trans upt_conv_Cons upt_add_eq_append le0 le_add_diff_inverse less_imp_le_nat add_0)
  moreover have "j \<in> set [Suc i..<n]" using ij jn by simp
  ultimately show ?thesis by (simp add: precedes_append)
qed

lemma precedes_nth:
  "precedes u v xs \<longleftrightarrow> (\<exists>p q. p < q \<and> q < length xs \<and> xs ! p = u \<and> xs ! q = v)"
proof (induction xs)
  case Nil
  then show ?case by simp
next
  case (Cons x xs)
  show ?case
  proof
    assume "precedes u v (x # xs)"
    then consider "x = u" "v \<in> set xs" | "precedes u v xs" by auto
    then show "\<exists>p q. p < q \<and> q < length (x # xs) \<and> (x # xs) ! p = u \<and> (x # xs) ! q = v"
    proof cases
      case 1
      then obtain q where "q < length xs" "xs ! q = v" by (auto simp: in_set_conv_nth)
      with 1 have "0 < Suc q \<and> Suc q < length (x # xs) \<and> (x # xs) ! 0 = u \<and> (x # xs) ! Suc q = v"
        by simp
      then show ?thesis by blast
    next
      case 2
      with Cons.IH obtain p q where "p < q" "q < length xs" "xs ! p = u" "xs ! q = v" by blast
      then have "Suc p < Suc q \<and> Suc q < length (x # xs) \<and> (x # xs) ! Suc p = u \<and> (x # xs) ! Suc q = v"
        by simp
      then show ?thesis by blast
    qed
  next
    assume "\<exists>p q. p < q \<and> q < length (x # xs) \<and> (x # xs) ! p = u \<and> (x # xs) ! q = v"
    then obtain p q where pq: "p < q" "q < length (x # xs)" "(x # xs) ! p = u" "(x # xs) ! q = v"
      by blast
    then obtain q' where q': "q = Suc q'" by (cases q) auto
    show "precedes u v (x # xs)"
    proof (cases p)
      case 0
      with pq q' show ?thesis by auto
    next
      case (Suc p')
      with pq q' have "p' < q' \<and> q' < length xs \<and> xs ! p' = u \<and> xs ! q' = v" by simp
      with Cons.IH have "precedes u v xs" by blast
      then show ?thesis by simp
    qed
  qed
qed

text \<open>For a comparator that is a total preorder the result is ordered.\<close>

lemma insert_by_sorted:
  assumes trans: "\<And>x y z. c x y \<le> 0 \<Longrightarrow> c y z \<le> 0 \<Longrightarrow> c x z \<le> 0"
    and total: "\<And>x y. \<not> c y x < 0 \<Longrightarrow> c x y \<le> 0"
  shows "sorted_wrt (\<lambda>x y. c x y \<le> 0) ys \<Longrightarrow> sorted_wrt (\<lambda>x y. c x y \<le> 0) (insert_by c x ys)"
proof (induction ys)
  case Nil
  then show ?case by simp
next
  case (Cons y ys)
  show ?case
  proof (cases "c y x < 0")
    case True
    with Cons show ?thesis by (auto simp: set_insert_by)
  next
    case False
    then have "c x y \<le> 0" by (rule total)
    with Cons.prems have "\<forall>z\<in>set (y # ys). c x z \<le> 0"
      by (auto intro: trans)
    with Cons.prems False show ?thesis by simp
  qed
qed

lemma array_sort_sorted:
  assumes trans: "\<And>x y z. c x y \<le> 0 \<Longrightarrow> c y z \<le> 0 \<Longrightarrow> c x z \<le> 0"
    and total: "\<And>x y. \<not> c y x < 0 \<Longrightarrow> c x y \<le> 0"
  shows "sorted_wrt (\<lambda>x y. c x y \<le> 0) (array_sort c xs)"
  by (induction xs) (simp_all add: insert_by_sorted [OF trans total])

lemma precedes_in_set: "precedes u v xs \<Longrightarrow> u \<in> set xs \<and> v \<in> set xs"
  by (induction xs) auto

lemma precedes_neq: "distinct xs \<Longrightarrow> precedes u v xs \<Longrightarrow> u \<noteq> v"
  by (induction xs) (auto dest: precedes_in_set)

lemma precedes_asym: "distinct xs \<Longrightarrow> precedes u v xs \<Longrightarrow> \<not> precedes v u xs"
  by (induction xs) (auto dest: precedes_in_set)

lemma precedes_total:
  "u \<in> set xs \<Longrightarrow> v \<in> set xs \<Longrightarrow> u \<noteq> v \<Longrightarrow> precedes u v xs \<or> precedes v u xs"
  by (induction xs) auto

lemma sorted_wrt_precedes: "sorted_wrt R xs \<longleftrightarrow> (\<forall>u v. precedes u v xs \<longrightarrow> R u v)"
  by (induction xs) auto

lemma sorted_wrt_unique:
  assumes asym: "\<And>u v. R u v \<Longrightarrow> R v u \<Longrightarrow> False"
  shows "sorted_wrt R xs \<Longrightarrow> sorted_wrt R ys \<Longrightarrow> distinct xs \<Longrightarrow> distinct ys \<Longrightarrow>
         set xs = set ys \<Longrightarrow> xs = ys"
proof (induction xs arbitrary: ys)
  case Nil
  then show ?case by simp
next
  case (Cons x xs)
  then obtain y ys' where ys: "ys = y # ys'" by (cases ys) auto
  have xy: "x = y"
  proof (rule ccontr)
    assume ne: "x \<noteq> y"
    with Cons.prems(5) ys have "x \<in> set ys'" and "y \<in> set xs" by auto
    with Cons.prems(1,2) ys have "R y x" and "R x y" by auto
    then show False by (rule asym)
  qed
  with Cons.prems ys have "set xs = set ys'" by auto
  with Cons.IH [of ys'] Cons.prems ys xy show ?case by simp
qed

text \<open>
  For a consistent comparator (the sign of \<open>c y x\<close> is the opposite of that of
  \<open>c x y\<close>, and \<open>\<le> 0\<close> is transitive) the result of a stable sort is determined:
  any arrangement of a list of distinct items that is ordered per the comparator and
  keeps the input order of items comparing as \<open>0\<close> is the list \<open>array_sort\<close> returns.
\<close>

lemma stable_sorted_order:
  fixes c :: "'a \<Rightarrow> 'a \<Rightarrow> int"
  assumes sign: "\<And>x y. c x y < 0 \<longleftrightarrow> c y x > 0"
    and dist: "distinct xs" and perm: "mset ps = mset xs"
    and sorted: "sorted_wrt (\<lambda>u v. c u v \<le> 0) ps"
    and stable: "\<And>u v. precedes u v xs \<Longrightarrow> c u v = 0 \<Longrightarrow> precedes u v ps"
  shows "sorted_wrt (\<lambda>u v. c u v < 0 \<or> (c u v = 0 \<and> precedes u v xs)) ps"
  unfolding sorted_wrt_precedes [of "\<lambda>u v. c u v < 0 \<or> (c u v = 0 \<and> precedes u v xs)"]
proof (intro allI impI)
  fix u v
  assume uv: "precedes u v ps"
  have dps: "distinct ps" using perm dist by (metis mset_eq_imp_distinct_iff)
  have sets: "set ps = set xs" using perm by (metis mset_eq_setD)
  from sorted uv have le: "c u v \<le> 0" by (simp add: sorted_wrt_precedes)
  show "c u v < 0 \<or> (c u v = 0 \<and> precedes u v xs)"
  proof (cases "c u v < 0")
    case True
    then show ?thesis by simp
  next
    case False
    with le have z: "c u v = 0" by simp
    have z': "c v u = 0" using z sign [of u v] sign [of v u] by linarith
    have "u \<noteq> v" using dps uv by (rule precedes_neq)
    moreover have "u \<in> set xs" "v \<in> set xs" using precedes_in_set [OF uv] sets by auto
    ultimately have "precedes u v xs \<or> precedes v u xs" by (simp add: precedes_total)
    moreover have "\<not> precedes v u xs"
    proof
      assume "precedes v u xs"
      then have "precedes v u ps" using z' by (rule stable)
      with precedes_asym [OF dps uv] show False by simp
    qed
    ultimately show ?thesis using z by simp
  qed
qed

lemma stable_sort_unique:
  assumes sign: "\<And>x y. c x y < 0 \<longleftrightarrow> c y x > 0"
    and trans: "\<And>x y z. c x y \<le> 0 \<Longrightarrow> c y z \<le> 0 \<Longrightarrow> c x z \<le> 0"
    and dist: "distinct xs" and perm: "mset ps = mset xs"
    and sorted: "sorted_wrt (\<lambda>u v. c u v \<le> 0) ps"
    and stable: "\<And>u v. precedes u v xs \<Longrightarrow> c u v = 0 \<Longrightarrow> precedes u v ps"
  shows "ps = array_sort c xs"
proof -
  let ?R = "\<lambda>u v. c u v < 0 \<or> (c u v = 0 \<and> precedes u v xs)"
  have total: "\<And>x y. \<not> c y x < 0 \<Longrightarrow> c x y \<le> 0"
    using sign by (metis not_less)
  have 1: "sorted_wrt ?R ps"
    using sign dist perm sorted stable by (rule stable_sorted_order)
  have 2: "sorted_wrt ?R (array_sort c xs)"
    using sign dist
  proof (rule stable_sorted_order)
    show "mset (array_sort c xs) = mset xs" by (rule mset_array_sort)
    show "sorted_wrt (\<lambda>u v. c u v \<le> 0) (array_sort c xs)"
      using trans total by (rule array_sort_sorted)
    show "\<And>u v. precedes u v xs \<Longrightarrow> c u v = 0 \<Longrightarrow> precedes u v (array_sort c xs)"
      using sign by (intro precedes_array_sort) (simp_all add: less_le)
  qed
  have asym: "\<And>u v. ?R u v \<Longrightarrow> ?R v u \<Longrightarrow> False"
    using sign precedes_asym [OF dist] by (metis less_asym)
  show ?thesis
  proof (rule sorted_wrt_unique [where R = ?R])
    show "\<And>u v. ?R u v \<Longrightarrow> ?R v u \<Longrightarrow> False" by (rule asym)
    show "sorted_wrt ?R ps" by (rule 1)
    show "sorted_wrt ?R (array_sort c xs)" by (rule 2)
    show "distinct ps" using perm dist by (metis mset_eq_imp_distinct_iff)
    show "distinct (array_sort c xs)"
      using dist mset_array_sort [of c xs] by (metis mset_eq_imp_distinct_iff)
    show "set ps = set (array_sort c xs)"
      using perm by (metis mset_eq_setD set_array_sort)
  qed
qed

lemma precedes_upt_less: "precedes u v [0..<n] \<Longrightarrow> u < v \<and> v < n"
proof -
  assume "precedes u v [0..<n]"
  then obtain p q where "p < q" "q < length [0..<n]" "[0..<n] ! p = u" "[0..<n] ! q = v"
    unfolding precedes_nth by blast
  then show ?thesis by simp
qed

text \<open>
  So for a consistent comparator the order in which \<open>sort\<close> returns the positions of
  its input is the one every stable sort returns: the only arrangement of the positions
  that is ordered per the comparator and keeps equal elements in their input order.
\<close>

lemma sort_order_unique:
  assumes sign: "\<And>x y. compare x y < 0 \<longleftrightarrow> compare y x > 0"
    and trans: "\<And>x y z. compare x y \<le> 0 \<Longrightarrow> compare y z \<le> 0 \<Longrightarrow> compare x z \<le> 0"
    and perm: "mset ps = mset [0..<length seq]"
    and sorted: "sorted_wrt (\<lambda>p q. compare (seq ! p) (seq ! q) \<le> 0) ps"
    and stable: "\<And>i j. i < j \<Longrightarrow> j < length seq \<Longrightarrow> compare (seq ! i) (seq ! j) = 0 \<Longrightarrow>
      precedes i j ps"
  shows "ps = sort_order compare seq"
  unfolding sort_order_def
proof (rule stable_sort_unique [where c = "\<lambda>i j. compare (seq ! i) (seq ! j)"])
  show "\<And>x y. (compare (seq ! x) (seq ! y) < 0) = (0 < compare (seq ! y) (seq ! x))"
    by (rule sign)
  show "\<And>x y z. compare (seq ! x) (seq ! y) \<le> 0 \<Longrightarrow> compare (seq ! y) (seq ! z) \<le> 0 \<Longrightarrow>
      compare (seq ! x) (seq ! z) \<le> 0"
    by (rule trans)
  show "distinct [0..<length seq]" by simp
  show "mset ps = mset [0..<length seq]" by (rule perm)
  show "sorted_wrt (\<lambda>u v. compare (seq ! u) (seq ! v) \<le> 0) ps" by (rule sorted)
  show "\<And>u v. precedes u v [0..<length seq] \<Longrightarrow> compare (seq ! u) (seq ! v) = 0 \<Longrightarrow>
      precedes u v ps"
    using precedes_upt_less stable by blast
qed

text \<open>
  C2. As the code has it: for every comparator, consistent or not, \<open>sort\<close> returns a
  permutation of its input: the output is the input read at the positions
  \<open>sort_order compare seq\<close>, which hold every position of the input exactly once. And
  for every comparator that is consistent on the elements of the input the sort is
  stable: when \<open>i < j\<close> are positions of the input whose elements compare as \<open>0\<close>,
  position \<open>i\<close> comes before position \<open>j\<close> in that order, so the element from \<open>i\<close> is
  before the element from \<open>j\<close> in the output.
\<close>

theorem sort_permutation_stable_if_consistent:
  "mset (sort_array compare seq) = mset seq
   \<and> length (sort_array compare seq) = length seq
   \<and> mset (sort_order compare seq) = mset [0..<length seq]
   \<and> sort_array compare seq = map (\<lambda>p. seq ! p) (sort_order compare seq)
   \<and> (consistent_on compare (set seq) \<longrightarrow>
        (\<forall>i j. i < j \<and> j < length seq \<and> compare (seq ! i) (seq ! j) = 0
           \<longrightarrow> precedes i j (sort_order compare seq)))"
proof (intro conjI allI impI)
  show m: "mset (sort_array compare seq) = mset seq"
    by (simp add: sort_array_def mset_array_sort)
  show "length (sort_array compare seq) = length seq"
    using m by (metis size_mset)
  show "mset (sort_order compare seq) = mset [0..<length seq]"
    by (simp only: sort_order_def mset_array_sort)
  have "map (\<lambda>p. seq ! p) (sort_order compare seq) = array_sort compare (map (\<lambda>p. seq ! p) [0..<length seq])"
    unfolding sort_order_def by (rule map_array_sort)
  then show "sort_array compare seq = map (\<lambda>p. seq ! p) (sort_order compare seq)"
    by (simp add: sort_array_def map_nth)
next
  fix i j
  assume c: "consistent_on compare (set seq)"
    and h: "i < j \<and> j < length seq \<and> compare (seq ! i) (seq ! j) = 0"
  from h have mem: "seq ! i \<in> set seq" "seq ! j \<in> set seq" by simp_all
  from c mem have "(compare (seq ! j) (seq ! i) < 0) = (compare (seq ! i) (seq ! j) > 0)"
    unfolding consistent_on_def by blast
  with h have nb: "\<not> compare (seq ! j) (seq ! i) < 0" by simp
  from h have "precedes i j [0..<length seq]" by (simp add: precedes_upt)
  then show "precedes i j (sort_order compare seq)"
    unfolding sort_order_def using nb by (intro precedes_array_sort) simp_all
qed

theorem sort_permutation_stable_if_consistent_witness:
  "precedes 0 2 (sort_order (\<lambda>p q. fst p - fst q) [(1 :: int, ''a''), (0, ''c''), (1, ''b'')])
   \<and> mset (sort_array (\<lambda>x y. 1) [1, 9, 2 :: int]) = mset [1, 9, 2]"
proof -
  let ?c = "\<lambda>p q :: int \<times> string. fst p - fst q"
  let ?seq = "[(1 :: int, ''a''), (0, ''c''), (1, ''b'')]"
  have c: "consistent_on ?c (set ?seq)"
    by (simp add: consistent_on_def)
  have h: "(0 :: nat) < 2 \<and> 2 < length ?seq \<and> ?c (?seq ! 0) (?seq ! 2) = 0" by simp
  from sort_permutation_stable_if_consistent [of ?c ?seq] c
  have "\<forall>i j. i < j \<and> j < length ?seq \<and> ?c (?seq ! i) (?seq ! j) = 0
          \<longrightarrow> precedes i j (sort_order ?c ?seq)"
    by blast
  with h have "precedes 0 2 (sort_order ?c ?seq)" by blast
  moreover have "mset (sort_array (\<lambda>x y. 1) [1, 9, 2 :: int]) = mset [1, 9, 2]"
    using sort_permutation_stable_if_consistent [of "\<lambda>x y. 1" "[1, 9, 2 :: int]"] by blast
  ultimately show ?thesis by blast
qed

text \<open>
  C2. Stated for every comparator, stability fails for \<open>skewed_compare\<close>, which is not
  consistent, on the array of \<open>1\<close> and \<open>2\<close>: the elements at positions \<open>0\<close> and \<open>1\<close>
  compare as \<open>0\<close>, and the sort returns them in the other order.
\<close>

theorem sort_skewed_compare_not_stable:
  "(0 :: nat) < 1 \<and> 1 < length [1, 2 :: int]
   \<and> skewed_compare ([1, 2] ! 0) ([1, 2] ! 1) = 0
   \<and> \<not> precedes 0 1 (sort_order skewed_compare [1, 2])
   \<and> sort_array skewed_compare [1, 2] = [2, 1]"
  by (simp add: sort_array_def sort_order_def skewed_compare_def upt_rec)

lemma skewed_compare_not_consistent: "\<not> consistent_on skewed_compare (set [1, 2])"
  by (simp add: consistent_on_def skewed_compare_def)

lemma sort_examples:
  "sort_array (\<lambda>a b. if a < b then - 1 else if a > b then 1 else 0)
     [1, 9, 2, 8, 3, 7, 4, 6, 5 :: int] = [1, 2, 3, 4, 5, 6, 7, 8, 9]"
  "sort_array (\<lambda>p q. fst p - fst q) [(1 :: int, ''a''), (0, ''c''), (1, ''b'')]
     = [(0, ''c''), (1, ''a''), (1, ''b'')]"
  "sort_order (\<lambda>p q. fst p - fst q) [(1 :: int, ''a''), (0, ''c''), (1, ''b'')] = [1, 0, 2]"
  "sort_array (\<lambda>x y. 1) [1, 9, 2 :: int] = [1, 9, 2]"
  by (simp_all add: sort_array_def sort_order_def upt_rec)

subsection \<open>No operation changes an array it is given\<close>


lemma length_push: "length (push r v s) = length s"
  by (simp add: push_def)
















lemma nth_push_other: "p \<noteq> r \<Longrightarrow> push r v s ! p = s ! p"
  by (simp add: push_def)

lemma nth_push_same: "r < length s \<Longrightarrow> push r v s ! r = s ! r @ [v]"
  by (simp add: push_def)

lemma range_up_st_content:
  "result < length s \<Longrightarrow>
   range_up_st lp upper result s ! result
     = s ! result @ map (\<lambda>k. lp + int k) [0..<nat (upper - lp)]"
proof (induction lp upper result s rule: range_up_st.induct)
  case (1 lp upper result s)
  show ?case
  proof (cases "lp < upper")
    case True
    then have n: "nat (upper - lp) = Suc (nat (upper - (lp + 1)))" by simp
    have "range_up_st lp upper result s ! result =
        range_up_st (lp + 1) upper result (push result lp s) ! result"
      using True by (subst range_up_st.simps) simp
    also have "\<dots> = push result lp s ! result
        @ map (\<lambda>k. lp + 1 + int k) [0..<nat (upper - (lp + 1))]"
      using "1.IH" [OF True] "1.prems" by (simp add: length_push)
    also have "\<dots> = s ! result @ map (\<lambda>k. lp + int k) [0..<nat (upper - lp)]"
      unfolding n upt_0_Suc_shift using "1.prems" by (simp add: nth_push_same comp_def)
    finally show ?thesis .
  next
    case False
    then show ?thesis by (subst range_up_st.simps) simp
  qed
qed

lemma range_down_st_content:
  "result < length s \<Longrightarrow>
   range_down_st lp upper result s ! result
     = s ! result @ map (\<lambda>k. lp - int k) [0..<nat (lp - upper)]"
proof (induction lp upper result s rule: range_down_st.induct)
  case (1 lp upper result s)
  show ?case
  proof (cases "lp > upper")
    case True
    then have n: "nat (lp - upper) = Suc (nat (lp - 1 - upper))" by simp
    have "range_down_st lp upper result s ! result =
        range_down_st (lp - 1) upper result (push result lp s) ! result"
      using True by (subst range_down_st.simps) simp
    also have "\<dots> = push result lp s ! result
        @ map (\<lambda>k. lp - 1 - int k) [0..<nat (lp - 1 - upper)]"
      using "1.IH" [OF True] "1.prems" by (simp add: length_push)
    also have "\<dots> = s ! result @ map (\<lambda>k. lp - int k) [0..<nat (lp - upper)]"
      unfolding n upt_0_Suc_shift using "1.prems" by (simp add: nth_push_same comp_def)
    finally show ?thesis .
  next
    case False
    then show ?thesis by (subst range_down_st.simps) simp
  qed
qed

lemma zipWith_loop_st_content:
  "result < length s \<Longrightarrow> a1 \<noteq> result \<Longrightarrow> a2 \<noteq> result \<Longrightarrow>
   zipWith_loop_st f a1 a2 upper lp result s ! result =
     zipWith_loop f (s ! a1) (s ! a2) upper lp (s ! result)"
proof (induction f a1 a2 upper lp result s rule: zipWith_loop_st.induct)
  case (1 f a1 a2 upper lp result s)
  let ?s = "push result (f (s ! a1 ! lp) (s ! a2 ! lp)) s"
  show ?case
  proof (cases "lp < upper")
    case True
    have "zipWith_loop_st f a1 a2 upper lp result s ! result =
        zipWith_loop_st f a1 a2 upper (lp + 1) result ?s ! result"
      using True by (subst zipWith_loop_st.simps) simp
    also have "\<dots> = zipWith_loop f (?s ! a1) (?s ! a2) upper (lp + 1) (?s ! result)"
      using "1.IH" [OF True] "1.prems" by (simp add: length_push)
    also have "\<dots> = zipWith_loop f (s ! a1) (s ! a2) upper (lp + 1)
        (s ! result @ [f (s ! a1 ! lp) (s ! a2 ! lp)])"
      using "1.prems" by (simp add: nth_push_other nth_push_same)
    also have "\<dots> = zipWith_loop f (s ! a1) (s ! a2) upper lp (s ! result)"
      using True by (subst (2) zipWith_loop.simps) simp
    finally show ?thesis .
  next
    case False
    then show ?thesis
      by (subst zipWith_loop_st.simps, subst zipWith_loop.simps) simp
  qed
qed

text \<open>
  On the integers up to \<open>2 ^ 53\<close> in absolute value, which the loops count exactly,
  \<open>range_st\<close> fills its array with what \<open>range\<close> returns.
\<close>

lemma range_st_refines:
  "\<bar>lower\<bar> \<le> 2 ^ 53 \<Longrightarrow> \<bar>upper\<bar> \<le> 2 ^ 53 \<Longrightarrow>
   range_array lower upper
     = Some (snd (range_st lower upper s) ! fst (range_st lower upper s))"
  by (simp add: range_st_def range_array_def alloc_def range_up_st_content
      range_down_st_content range_up_safe range_down_safe)

lemma zipWith_st_refines:
  "a1 < length s \<Longrightarrow> a2 < length s \<Longrightarrow>
   snd (zipWith_st f a1 a2 s) ! fst (zipWith_st f a1 a2 s) = zipWith f (s ! a1) (s ! a2)"
  by (simp add: zipWith_st_def zipWith_def alloc_def Let_def zipWith_loop_st_content
      nth_append)

lemma sort_st_refines:
  "snd (sort_st compare a s) ! fst (sort_st compare a s) = sort_array compare (s ! a)"
  by (simp add: sort_st_def sort_array_def alloc_def sort_in_place_def)

lemma reduce_st_refines:
  "a < length s \<Longrightarrow> fst (reduce_st a fNil fCons s) = reduce (s ! a) fNil fCons"
  by (simp add: reduce_st_def reduce_def alloc_def nth_append)

lemma alloc_refines:
  "snd (alloc xs s) ! fst (alloc xs s) = xs"
  by (simp add: alloc_def)


lemma sort_st_example:
  "sort_st (\<lambda>x y. x - y) 0 [[3, 1, 2 :: int]] = (1, [[3, 1, 2], [1, 2, 3]])"
  by (simp add: sort_st_def alloc_def sort_in_place_def)

lemma zipWith_st_example:
  "zipWith_st (\<lambda>x y. x * y) 0 1 [[1, 2, 3], [4, 5, 6, 7 :: int]]
     = (2, [[1, 2, 3], [4, 5, 6, 7], [4, 10, 18]])"
  by (simp add: zipWith_st_def alloc_def zipWith_loop_st.simps push_def)

lemma range_st_example:
  "range_st 3 0 [[7]] = (1, [[7], [3, 2, 1]])"
  by (simp add: range_st_def alloc_def range_down_st.simps push_def)


end
